theory Spec2Isabelle
  imports
    Main
    "HOL-Library.AList"
    "HOL-Library.Stream"
    "HOL-Library.Char_ord"
    "HOL-Library.List_Lexorder"
begin

section \<open>REST API helpers (scripts/common/rest\_api\_helpers.py)\<close>

text \<open>
  A shallow embedding of \<^verbatim>\<open>rest_api_helpers.py\<close>. Python values that travel through
  the helpers are JSON values; Python dictionaries are association lists with the
  insertion-order semantics of \<^const>\<open>AList.update\<close>; exceptions are the left summand of a
  result; everything the code does to the outside (HTTP requests, console output, files,
  allocation of dictionaries) is recorded in an explicit \<open>world\<close>.
\<close>

subsection \<open>Values\<close>

text \<open>
  The result of \<^verbatim>\<open>response.json()\<close>. The JSON \<^verbatim>\<open>null\<close> is Python's \<^verbatim>\<open>None\<close>; numbers
  are carried as integers, the helpers never compute with them.
\<close>

datatype json =
    JNull
  | JBool bool
  | JNum int
  | JStr string
  | JArr "json list"
  | JObj "(string \<times> json) list"

text \<open>A Python \<^verbatim>\<open>dict\<close> with string keys, as the \<^verbatim>\<open>params\<close> of a request.\<close>

type_synonym dict = "(string \<times> json) list"

text \<open>
  The exceptions that the helpers and the functions they call can raise. \<open>CopyError\<close>
  stands for whatever \<^verbatim>\<open>shutil.copyfileobj\<close> raises when the stream or the device fails
  partway.
\<close>

datatype error =
    FileAlreadyExists
  | IsADirectoryError
  | PermissionError
  | FileNotFoundError
  | NotADirectoryError
  | CopyError
  | HTTPError
  | JSONDecodeError
  | ConnectionError
  | AssertionError
  | KeyError
  | TypeError

subsection \<open>The outside world\<close>

text \<open>
  A \<^verbatim>\<open>requests.Response\<close>: its status, its body bytes, and what \<^verbatim>\<open>response.json()\<close>
  makes of the body (\<open>None\<close> when the body is not decodable, where the call raises).
\<close>

record response =
  status_code :: int
  content :: string
  json_body :: "json option"

text \<open>
  One call of \<^verbatim>\<open>requests.get\<close>: the URL, the dictionary object passed as \<^verbatim>\<open>params\<close>
  (its address in the store) with the contents it had at the time of the call, and the
  \<^verbatim>\<open>stream\<close> flag.
\<close>

record request =
  rq_url :: string
  rq_ref :: "nat option"
  rq_params :: "dict option"
  rq_stream :: bool

text \<open>
  What is at a path of the file system: a regular file with its contents and whether the
  process may write it, or a directory.
\<close>

datatype fs_entry =
    Regular string bool
  | Directory

text \<open>What \<^verbatim>\<open>print\<close> wrote: a line of text, \<^verbatim>\<open>json.dumps(v, indent=4)\<close>, or the repr of bytes.\<close>

datatype console_line =
    Line string
  | JsonDump json
  | BytesRepr string

text \<open>
  \<^item> \<open>heap\<close>: the dictionary objects, addressed by their index; a dictionary display
    allocates a new one at the end.
  \<^item> \<open>replies\<close>: what the network answers to the calls of \<^verbatim>\<open>requests.get\<close>, in order:
    a response, or \<open>None\<close> when the transport fails and the call raises
    \<^verbatim>\<open>ConnectionError\<close>. The sequence is infinite, so a run may issue any number
    of requests.
  \<^item> \<open>requests_log\<close>: the calls of \<^verbatim>\<open>requests.get\<close> made so far.
  \<^item> \<open>console\<close>: the output printed so far.
  \<^item> \<open>files\<close>: the file system, what there is at each path that exists.
  \<^item> \<open>no_create\<close>: the paths that do not exist and cannot be created, each with the
    error that \<^verbatim>\<open>open\<close> raises on it (\<^verbatim>\<open>FileNotFoundError\<close> when its directory is
    missing, \<^verbatim>\<open>NotADirectoryError\<close>, \<^verbatim>\<open>PermissionError\<close>).
  \<^item> \<open>copy_fault\<close>: \<open>Some n\<close> when a copy of a stream to a file breaks with \<open>n\<close> bytes
    written (the stream fails or the device is full), \<open>None\<close> when it runs to the end.
\<close>

record world =
  heap :: "dict list"
  replies :: "response option stream"
  requests_log :: "request list"
  console :: "console_line list"
  files :: "(string \<times> fs_entry) list"
  no_create :: "(string \<times> error) list"
  copy_fault :: "nat option"

definition print :: "console_line \<Rightarrow> world \<Rightarrow> world" where
  "print l w = w\<lparr>console := console w @ [l]\<rparr>"

definition alloc :: "dict \<Rightarrow> world \<Rightarrow> nat \<times> world" where
  "alloc d w = (length (heap w), w\<lparr>heap := heap w @ [d]\<rparr>)"

text \<open>\<^verbatim>\<open>requests.get(url, params=params, stream=stream)\<close>: logs the call, takes the next reply.\<close>

definition requests_get :: "string \<Rightarrow> nat option \<Rightarrow> bool \<Rightarrow> world \<Rightarrow> (error + response) \<times> world" where
  "requests_get url params stream w =
     (let rq = \<lparr>rq_url = url, rq_ref = params,
                rq_params = map_option (\<lambda>a. heap w ! a) params, rq_stream = stream\<rparr>
      in ((case shd (replies w) of None \<Rightarrow> Inl ConnectionError | Some r \<Rightarrow> Inr r),
          w\<lparr>replies := stl (replies w), requests_log := requests_log w @ [rq]\<rparr>))"

text \<open>\<^verbatim>\<open>Response.raise_for_status\<close> of the requests library raises for 4xx and 5xx.\<close>

definition raise_for_status :: "response \<Rightarrow> error + unit" where
  "raise_for_status r =
     (if 400 \<le> status_code r \<and> status_code r < 600 then Inl HTTPError else Inr ())"

definition response_json :: "response \<Rightarrow> error + json" where
  "response_json r = (case json_body r of None \<Rightarrow> Inl JSONDecodeError | Some j \<Rightarrow> Inr j)"

text \<open>Python's \<^verbatim>\<open>value[key]\<close> with a string key, on a decoded JSON value.\<close>

fun getitem :: "json \<Rightarrow> string \<Rightarrow> error + json" where
  "getitem (JObj kvs) k = (case map_of kvs k of None \<Rightarrow> Inl KeyError | Some v \<Rightarrow> Inr v)"
| "getitem _ k = Inl TypeError"

subsection \<open>query\_api\<close>

definition query_api :: "string \<Rightarrow> nat \<Rightarrow> bool \<Rightarrow> world \<Rightarrow> (error + json) \<times> world" where
  "query_api url params debug_requests w =
     (let w1 = (if debug_requests then print (Line (''REQUEST: '' @ url)) w else w) in
      case requests_get url (Some params) False w1 of
        (Inl e, w2) \<Rightarrow> (Inl e, w2)
      | (Inr response, w2) \<Rightarrow>
          (case raise_for_status response of
             Inl e \<Rightarrow> (Inl e, w2)
           | Inr _ \<Rightarrow>
               if debug_requests then
                 (case response_json response of
                    Inl e \<Rightarrow> (Inl e, w2)
                  | Inr json_response \<Rightarrow>
                      (let w3 = print (Line ''========== RESPONSE =========='') w2;
                           w4 = (if json_response \<noteq> JNull
                                 then print (JsonDump json_response) w3
                                 else print (BytesRepr (content response)) w3);
                           w5 = print (Line ''=============================='') w4
                       in (response_json response, w5)))
               else (response_json response, w2)))"

subsection \<open>download\_file\<close>

text \<open>\<^verbatim>\<open>Path.exists()\<close>: true of a file and of a directory.\<close>

definition path_exists :: "string \<Rightarrow> world \<Rightarrow> bool" where
  "path_exists path w = (map_of (files w) path \<noteq> None)"

text \<open>
  \<^verbatim>\<open>open(path, 'wb')\<close>: refused on a directory and on a file that the process may not
  write; an existing file is truncated, a missing one is created unless its path cannot
  be.
\<close>

definition open_wb :: "string \<Rightarrow> world \<Rightarrow> (error + unit) \<times> world" where
  "open_wb path w =
     (case map_of (files w) path of
        Some Directory \<Rightarrow> (Inl IsADirectoryError, w)
      | Some (Regular old writable) \<Rightarrow>
          if writable
          then (Inr (), w\<lparr>files := AList.update path (Regular [] True) (files w)\<rparr>)
          else (Inl PermissionError, w)
      | None \<Rightarrow>
          (case map_of (no_create w) path of
             Some e \<Rightarrow> (Inl e, w)
           | None \<Rightarrow> (Inr (), w\<lparr>files := AList.update path (Regular [] True) (files w)\<rparr>)))"

text \<open>
  \<^verbatim>\<open>shutil.copyfileobj(raw, target_file)\<close> into the file opened at \<open>path\<close>: all the bytes,
  or the first \<open>n\<close> of them and an error when the copy breaks.
\<close>

definition copyfileobj :: "string \<Rightarrow> string \<Rightarrow> world \<Rightarrow> (error + unit) \<times> world" where
  "copyfileobj raw path w =
     (case copy_fault w of
        None \<Rightarrow> (Inr (), w\<lparr>files := AList.update path (Regular raw True) (files w)\<rparr>)
      | Some n \<Rightarrow>
          (Inl CopyError, w\<lparr>files := AList.update path (Regular (take n raw) True) (files w)\<rparr>))"

definition download_file :: "string \<Rightarrow> string \<Rightarrow> bool \<Rightarrow> world \<Rightarrow> (error + unit) \<times> world" where
  "download_file url target_path overwrite w =
     (if \<not> overwrite \<and> path_exists target_path w
      then (Inl FileAlreadyExists, w)
      else
        (case requests_get url None True w of
           (Inl e, w1) \<Rightarrow> (Inl e, w1)
         | (Inr request, w1) \<Rightarrow>
             (case open_wb target_path w1 of
                (Inl e, w2) \<Rightarrow> (Inl e, w2)
              | (Inr _, w2) \<Rightarrow> copyfileobj (content request) target_path w2)))"

subsection \<open>CircleCI: pagination\<close>

record circleci =
  project_slug :: string
  debug_requests :: bool

definition DEFAULT_MAX_PAGES :: "int option" where
  "DEFAULT_MAX_PAGES = Some 10"

text \<open>
  \<^verbatim>\<open>paginated_query_api_iterator\<close> is a generator. A generator object holds the local
  variables of the function and where it stands: not started, suspended at the
  \<^verbatim>\<open>yield\<close>, or finished. \<^verbatim>\<open>params\<close> is the address of a dictionary.
\<close>

datatype gen_state = Created | Suspended | Finished

record generator =
  g_url :: string
  g_params :: nat
  g_max_pages :: "int option"
  g_page_count :: int
  g_response :: json
  g_state :: gen_state

text \<open>Calling the generator function runs none of its body.\<close>

definition paginated_query_api_iterator ::
    "circleci \<Rightarrow> string \<Rightarrow> nat \<Rightarrow> int option \<Rightarrow> generator" where
  "paginated_query_api_iterator self url params max_pages =
     \<lparr>g_url = url, g_params = params, g_max_pages = max_pages, g_page_count = 0,
      g_response = JNull, g_state = Created\<rparr>"

text \<open>
  From the head of the \<^verbatim>\<open>while\<close> loop to the \<^verbatim>\<open>yield\<close>, with the current value of
  \<^verbatim>\<open>next_page_token\<close>. The result is \<open>Inr (Some v)\<close> when \<open>v\<close> is yielded, \<open>Inr None\<close>
  when the generator returns (\<^verbatim>\<open>StopIteration\<close>), \<open>Inl e\<close> when \<open>e\<close> is raised.
\<close>

definition iterator_loop ::
    "circleci \<Rightarrow> generator \<Rightarrow> json \<Rightarrow> world \<Rightarrow> (error + json option) \<times> generator \<times> world" where
  "iterator_loop self g next_page_token w =
     (if (case g_max_pages g of None \<Rightarrow> True | Some max_pages \<Rightarrow> g_page_count g < max_pages)
      then
        (let (params, w1) =
               (if next_page_token \<noteq> JNull
                then alloc (AList.update ''page-token'' next_page_token (heap w ! g_params g)) w
                else (g_params g, w))
         in case query_api (g_url g) params (debug_requests self) w1 of
              (Inl e, w2) \<Rightarrow> (Inl e, g\<lparr>g_params := params, g_state := Finished\<rparr>, w2)
            | (Inr response, w2) \<Rightarrow>
                (case getitem response ''items'' of
                   Inl e \<Rightarrow>
                     (Inl e, g\<lparr>g_params := params, g_response := response,
                               g_state := Finished\<rparr>, w2)
                 | Inr items \<Rightarrow>
                     (Inr (Some items),
                      g\<lparr>g_params := params, g_response := response, g_state := Suspended\<rparr>,
                      w2)))
      else (Inr None, g\<lparr>g_state := Finished\<rparr>, w))"

text \<open>
  \<^verbatim>\<open>next(generator)\<close>. A new generator runs the assertion and enters the loop; a suspended
  one resumes after the \<^verbatim>\<open>yield\<close>: it reads the token, counts the page, and leaves the
  loop on a null token or goes back to its head.
\<close>

definition gen_next ::
    "circleci \<Rightarrow> generator \<Rightarrow> world \<Rightarrow> (error + json option) \<times> generator \<times> world" where
  "gen_next self g w =
     (case g_state g of
        Created \<Rightarrow>
          if map_of (heap w ! g_params g) ''page-token'' \<noteq> None
          then (Inl AssertionError, g\<lparr>g_state := Finished\<rparr>, w)
          else iterator_loop self (g\<lparr>g_page_count := 0\<rparr>) JNull w
      | Suspended \<Rightarrow>
          (case getitem (g_response g) ''next_page_token'' of
             Inl e \<Rightarrow> (Inl e, g\<lparr>g_state := Finished\<rparr>, w)
           | Inr next_page_token \<Rightarrow>
               (let g1 = g\<lparr>g_page_count := g_page_count g + 1\<rparr>
                in if next_page_token = JNull
                   then (Inr None, g1\<lparr>g_state := Finished\<rparr>, w)
                   else iterator_loop self g1 next_page_token w))
      | Finished \<Rightarrow> (Inr None, g, w))"

text \<open>\<^verbatim>\<open>operator.add\<close> on a list and a decoded JSON value.\<close>

fun operator_add :: "json list \<Rightarrow> json \<Rightarrow> error + json list" where
  "operator_add acc (JArr xs) = Inr (acc @ xs)"
| "operator_add acc _ = Inl TypeError"

text \<open>
  \<^verbatim>\<open>functools.reduce(operator.add, generator, acc)\<close>: takes the next element, adds it, and
  goes on until the generator returns. The loop need not end (no page limit and a token
  on every page): no result is \<open>None\<close>.
\<close>

partial_function (option) reduce_add ::
    "circleci \<Rightarrow> generator \<Rightarrow> json list \<Rightarrow> world \<Rightarrow> ((error + json list) \<times> world) option" where
  "reduce_add self g acc w =
     (case gen_next self g w of
        (Inl e, g', w') \<Rightarrow> Some (Inl e, w')
      | (Inr None, g', w') \<Rightarrow> Some (Inr acc, w')
      | (Inr (Some x), g', w') \<Rightarrow>
          (case operator_add acc x of
             Inl e \<Rightarrow> Some (Inl e, w')
           | Inr acc' \<Rightarrow> reduce_add self g' acc' w'))"

definition paginated_query_api ::
    "circleci \<Rightarrow> string \<Rightarrow> nat \<Rightarrow> int option \<Rightarrow> world \<Rightarrow> ((error + json list) \<times> world) option" where
  "paginated_query_api self url params max_pages w =
     reduce_add self (paginated_query_api_iterator self url params max_pages) [] w"

subsection \<open>CircleCI: latest\_item\<close>

text \<open>
  An item is a dictionary whose values are of a linearly ordered type, as the strings of
  the \<^verbatim>\<open>created_at\<close> fields are. \<^verbatim>\<open>sorted\<close> evaluates the key of every item first (a
  missing key raises) and is stable, as \<^const>\<open>sort_key\<close> is.
\<close>

definition created_at :: "(string \<times> 'v) list \<Rightarrow> 'v" where
  "created_at item = the (map_of item ''created_at'')"

definition latest_item ::
    "(string \<times> 'v::linorder) list list \<Rightarrow> error + (string \<times> 'v) list option" where
  "latest_item items =
     (if \<exists>item \<in> set items. map_of item ''created_at'' = None then Inl KeyError
      else
        (let sorted_items = sort_key created_at items
         in Inr (if length sorted_items > 0 then Some (sorted_items ! 0) else None)))"

subsection \<open>Pages and runs\<close>

text \<open>
  A response is a page with items \<open>its\<close> and token field \<open>t\<close> when its status is not
  an error and its body decodes to an object whose \<^verbatim>\<open>items\<close> is the list \<open>its\<close> and whose
  \<^verbatim>\<open>next_page_token\<close> is \<open>t\<close>: \<open>Some v\<close> for the value \<open>v\<close>, \<open>None\<close> when the object has
  no such field.
\<close>

fun is_page :: "response \<Rightarrow> json list \<times> json option \<Rightarrow> bool" where
  "is_page r (its, t) =
     (\<not> (400 \<le> status_code r \<and> status_code r < 600) \<and>
      (case json_body r of
         Some (JObj kvs) \<Rightarrow>
           map_of kvs ''items'' = Some (JArr its) \<and> map_of kvs ''next_page_token'' = t
       | _ \<Rightarrow> False))"

text \<open>The guard of the \<^verbatim>\<open>while\<close> loop.\<close>

definition within_limit :: "int \<Rightarrow> int option \<Rightarrow> bool" where
  "within_limit page_count max_pages =
     (case max_pages of None \<Rightarrow> True | Some m \<Rightarrow> page_count < m)"

text \<open>
  \<open>serves tok n mx ts\<close>: after \<open>n\<close> pages, the last of them with token \<open>tok\<close>, the loop
  fetches exactly the pages whose token fields are \<open>ts\<close> and then ends.
\<close>

fun serves :: "json \<Rightarrow> int \<Rightarrow> int option \<Rightarrow> json option list \<Rightarrow> bool" where
  "serves tok n mx [] = (tok = JNull \<or> \<not> within_limit n mx)"
| "serves tok n mx (t # ts) =
     (tok \<noteq> JNull \<and> within_limit n mx \<and>
      (case t of None \<Rightarrow> False | Some tok' \<Rightarrow> serves tok' (n + 1) mx ts))"

subsection \<open>The requests of a run\<close>

text \<open>The \<^verbatim>\<open>next_page_token\<close> that a reply carries, null when it carries none.\<close>

definition token_of :: "response option \<Rightarrow> json" where
  "token_of reply =
     (case reply of
        None \<Rightarrow> JNull
      | Some r \<Rightarrow>
          (case json_body r of
             None \<Rightarrow> JNull
           | Some j \<Rightarrow> (case getitem j ''next_page_token'' of Inl e \<Rightarrow> JNull | Inr t \<Rightarrow> t)))"

text \<open>
  The requests of a run of the pagination that starts in the world \<open>w\<close> on the dictionary
  at \<open>params\<close>, numbered from 0. Request 0 passes the caller's dictionary itself. Request
  \<open>i\<close> after it passes a dictionary allocated during the run, so at an address beyond the
  store of \<open>w\<close>, that holds the caller's entries and the token of reply \<open>i - 1\<close> under
  \<^verbatim>\<open>page-token\<close>.
\<close>

definition page_ref :: "world \<Rightarrow> nat \<Rightarrow> nat \<Rightarrow> nat" where
  "page_ref w params i = (if i = 0 then params else length (heap w) + (i - 1))"

definition page_params :: "world \<Rightarrow> nat \<Rightarrow> nat \<Rightarrow> dict" where
  "page_params w params i =
     (if i = 0 then heap w ! params
      else AList.update ''page-token'' (token_of (replies w !! (i - 1))) (heap w ! params))"

definition page_request :: "string \<Rightarrow> world \<Rightarrow> nat \<Rightarrow> nat \<Rightarrow> request" where
  "page_request url w params i =
     \<lparr>rq_url = url, rq_ref = Some (page_ref w params i),
      rq_params = Some (page_params w params i), rq_stream = False\<rparr>"

text \<open>
  After \<open>k\<close> requests, the log has grown by requests 0 to \<open>k - 1\<close> and the store by the
  dictionaries of requests 1 to \<open>k - 1\<close>; \<open>run_inv\<close> adds what the generator holds.
\<close>

definition run_post :: "string \<Rightarrow> world \<Rightarrow> nat \<Rightarrow> nat \<Rightarrow> world \<Rightarrow> bool" where
  "run_post url w params k w' =
     (requests_log w' = requests_log w @ map (page_request url w params) [0..<k] \<and>
      heap w' = heap w @ map (page_params w params) [1..<k])"

definition run_inv :: "string \<Rightarrow> world \<Rightarrow> nat \<Rightarrow> nat \<Rightarrow> generator \<Rightarrow> world \<Rightarrow> bool" where
  "run_inv url w params k g w' =
     (run_post url w params k w' \<and> replies w' = sdrop k (replies w) \<and> g_url g = url \<and>
      (case g_state g of
         Created \<Rightarrow> k = 0 \<and> g_params g = params
       | Suspended \<Rightarrow>
           0 < k \<and> g_params g = page_ref w params (k - 1) \<and>
           (\<exists>r. replies w !! (k - 1) = Some r \<and> json_body r = Some (g_response g))
       | Finished \<Rightarrow> True))"

subsection \<open>Example data\<close>

definition page_response :: "json list \<Rightarrow> json \<Rightarrow> response" where
  "page_response its tok =
     \<lparr>status_code = 200, content = ''{...}'',
      json_body = Some (JObj [(''items'', JArr its), (''next_page_token'', tok)])\<rparr>"

definition ci :: circleci where
  "ci = \<lparr>project_slug = ''ethereum/solidity'', debug_requests = False\<rparr>"

text \<open>
  A world with one dictionary \<^verbatim>\<open>{'branch': 'develop'}\<close> at address 0, a file that may
  be written, one that may not, a directory, and the given replies, after which the
  transport fails.
\<close>

definition example_world :: "response option list \<Rightarrow> world" where
  "example_world rs =
     \<lparr>heap = [[(''branch'', JStr ''develop'')]],
      replies = rs @- sconst None,
      requests_log = [], console = [],
      files = [(''artifact.bin'', Regular ''old'' True),
               (''readonly.bin'', Regular ''kept'' False),
               (''artifacts'', Directory)],
      no_create = [], copy_fault = None\<rparr>"

definition r_not_found :: response where
  "r_not_found = \<lparr>status_code = 404, content = ''{}'', json_body = Some (JObj [])\<rparr>"

definition r_not_modified :: response where
  "r_not_modified = \<lparr>status_code = 304, content = ''[]'', json_body = Some (JArr [])\<rparr>"

definition r_html :: response where
  "r_html = \<lparr>status_code = 200, content = ''<html>'', json_body = None\<rparr>"

definition r_no_token :: response where
  "r_no_token = \<lparr>status_code = 200, content = ''{...}'',
     json_body = Some (JObj [(''items'', JArr [JNum 1])])\<rparr>"

definition example_items :: "(string \<times> string) list list" where
  "example_items = [[(''created_at'', ''2020-01-01'')], [(''created_at'', ''2019-01-01'')]]"

section \<open>Properties of query\_api\<close>

text \<open>
  C9, as the code has it. When the status of the response is a client or server error
  (400 to 599, where \<^verbatim>\<open>raise_for_status\<close> raises), \<open>query_api\<close> fails with \<open>HTTPError\<close>
  and returns no value. For every other status, the 2xx among them, and a body that
  decodes as JSON, it returns the decoded value, with or without debug output.
\<close>

theorem query_api_status:
  assumes "shd (replies w) = Some r"
  shows "(400 \<le> status_code r \<and> status_code r < 600 \<longrightarrow>
            fst (query_api url params debug w) = Inl HTTPError) \<and>
         (\<not> (400 \<le> status_code r \<and> status_code r < 600) \<and> json_body r = Some j \<longrightarrow>
            fst (query_api url params debug w) = Inr j)"
  using assms
  by (simp add: query_api_def requests_get_def raise_for_status_def response_json_def
        print_def Let_def)

theorem query_api_status_witness:
  "fst (query_api ''u'' 0 False (example_world [Some r_not_found])) = Inl HTTPError \<and>
   fst (query_api ''u'' 0 True (example_world [Some (page_response [] JNull)])) =
     Inr (JObj [(''items'', JArr []), (''next_page_token'', JNull)])"
  using query_api_status [where w = "example_world [Some r_not_found]" and r = r_not_found
      and url = "''u''" and params = 0 and debug = False]
    query_api_status [where w = "example_world [Some (page_response [] JNull)]"
      and r = "page_response [] JNull" and url = "''u''" and params = 0 and debug = True
      and j = "JObj [(''items'', JArr []), (''next_page_token'', JNull)]"]
  by (simp add: example_world_def r_not_found_def page_response_def)

text \<open>
  C9 as stated fails: a response with status 304 is not a 2xx response, and \<open>query_api\<close>
  returns its decoded body.
\<close>

theorem query_api_status_counterexample:
  "\<not> (200 \<le> status_code r_not_modified \<and> status_code r_not_modified < 300) \<and>
   fst (query_api ''u'' 0 False (example_world [Some r_not_modified])) = Inr (JArr [])"
  by (simp add: query_api_def requests_get_def raise_for_status_def response_json_def
        print_def Let_def example_world_def r_not_modified_def)

text \<open>
  What \<open>query_api\<close> prints on a response that passes \<^verbatim>\<open>raise_for_status\<close>: nothing
  without \<open>debug\<close>; with it, the request line, and after it the markers around the JSON
  dump of the decoded body, or around the raw bytes when the body decodes to null, and
  nothing after the request line when the body does not decode.
\<close>

lemma query_api_console:
  assumes "shd (replies w) = Some r" and "\<not> (400 \<le> status_code r \<and> status_code r < 600)"
  shows "console (snd (query_api url params debug w)) =
           console w @
           (if debug then
              Line (''REQUEST: '' @ url) #
              (case json_body r of
                 None \<Rightarrow> []
               | Some j \<Rightarrow>
                   [Line ''========== RESPONSE =========='',
                    if j \<noteq> JNull then JsonDump j else BytesRepr (content r),
                    Line ''==============================''])
            else [])"
  using assms
  by (simp add: query_api_def requests_get_def raise_for_status_def response_json_def
        print_def Let_def split: option.splits)

text \<open>
  C7 at a successful response whose body is not JSON, with debug output on: the request
  line is printed, then \<^verbatim>\<open>response.json()\<close> raises before the first marker; neither the
  markers nor the raw bytes reach the console.
\<close>

theorem query_api_debug_undecodable:
  "fst (query_api ''u'' 0 True (example_world [Some r_html])) = Inl JSONDecodeError \<and>
   console (snd (query_api ''u'' 0 True (example_world [Some r_html]))) = [Line ''REQUEST: u'']"
  by (simp add: query_api_def requests_get_def raise_for_status_def response_json_def
        print_def Let_def example_world_def r_html_def)

section \<open>Properties of download\_file\<close>

text \<open>
  C5, as the code has it. \<open>target_path\<close> exists, as a file or as a directory. When
  \<open>overwrite\<close> is false, \<open>download_file\<close> raises \<open>FileAlreadyExists\<close> and leaves the world
  as it was: no request is issued. When \<open>overwrite\<close> is true, it issues one streamed
  request; with the response \<open>r\<close> to it,
  \<^item> on a regular file that may be written, and a copy that runs to the end, it returns
    and the file holds the body bytes of \<open>r\<close>;
  \<^item> on such a file, and a copy that breaks after \<open>n\<close> bytes, it raises the error of the
    copy and the file holds the first \<open>n\<close> bytes of the body;
  \<^item> on a regular file that may not be written, \<^verbatim>\<open>open\<close> raises \<open>PermissionError\<close>;
  \<^item> on a directory, \<^verbatim>\<open>open\<close> raises \<open>IsADirectoryError\<close>;
  and in the last two cases no file is changed.
\<close>

theorem download_file_exists:
  assumes "map_of (files w) target_path = Some e"
  shows "(\<not> overwrite \<longrightarrow>
            download_file url target_path overwrite w = (Inl FileAlreadyExists, w)) \<and>
         (overwrite \<and> shd (replies w) = Some r \<longrightarrow>
            requests_log (snd (download_file url target_path overwrite w)) =
              requests_log w @
              [\<lparr>rq_url = url, rq_ref = None, rq_params = None, rq_stream = True\<rparr>] \<and>
            (\<forall>old. e = Regular old True \<and> copy_fault w = None \<longrightarrow>
               fst (download_file url target_path overwrite w) = Inr () \<and>
               map_of (files (snd (download_file url target_path overwrite w))) target_path =
                 Some (Regular (content r) True)) \<and>
            (\<forall>old n. e = Regular old True \<and> copy_fault w = Some n \<longrightarrow>
               fst (download_file url target_path overwrite w) = Inl CopyError \<and>
               map_of (files (snd (download_file url target_path overwrite w))) target_path =
                 Some (Regular (take n (content r)) True)) \<and>
            (\<forall>old. e = Regular old False \<longrightarrow>
               fst (download_file url target_path overwrite w) = Inl PermissionError \<and>
               files (snd (download_file url target_path overwrite w)) = files w) \<and>
            (e = Directory \<longrightarrow>
               fst (download_file url target_path overwrite w) = Inl IsADirectoryError \<and>
               files (snd (download_file url target_path overwrite w)) = files w))"
proof (intro conjI impI)
  assume "\<not> overwrite"
  with assms show "download_file url target_path overwrite w = (Inl FileAlreadyExists, w)"
    by (simp add: download_file_def path_exists_def)
next
  assume a: "overwrite \<and> shd (replies w) = Some r"
  let ?rq = "\<lparr>rq_url = url, rq_ref = None, rq_params = None, rq_stream = True\<rparr>"
  let ?w1 = "w\<lparr>replies := stl (replies w), requests_log := requests_log w @ [?rq]\<rparr>"
  have g: "requests_get url None True w = (Inr r, ?w1)"
    using a by (simp add: requests_get_def)
  have d: "download_file url target_path overwrite w =
      (case open_wb target_path ?w1 of
         (Inl e, w2) \<Rightarrow> (Inl e, w2)
       | (Inr _, w2) \<Rightarrow> copyfileobj (content r) target_path w2)"
    using a g by (simp add: download_file_def)
  show "requests_log (snd (download_file url target_path overwrite w)) = requests_log w @ [?rq]"
    using assms
    by (cases e; cases "copy_fault w")
      (simp_all add: d open_wb_def copyfileobj_def)
  show "\<forall>old. e = Regular old True \<and> copy_fault w = None \<longrightarrow>
      fst (download_file url target_path overwrite w) = Inr () \<and>
      map_of (files (snd (download_file url target_path overwrite w))) target_path =
        Some (Regular (content r) True)"
    using assms by (simp add: d open_wb_def copyfileobj_def update_conv')
  show "\<forall>old n. e = Regular old True \<and> copy_fault w = Some n \<longrightarrow>
      fst (download_file url target_path overwrite w) = Inl CopyError \<and>
      map_of (files (snd (download_file url target_path overwrite w))) target_path =
        Some (Regular (take n (content r)) True)"
    using assms by (simp add: d open_wb_def copyfileobj_def update_conv')
  show "\<forall>old. e = Regular old False \<longrightarrow>
      fst (download_file url target_path overwrite w) = Inl PermissionError \<and>
      files (snd (download_file url target_path overwrite w)) = files w"
    using assms by (simp add: d open_wb_def)
  assume "e = Directory"
  with assms show "fst (download_file url target_path overwrite w) = Inl IsADirectoryError"
    and "files (snd (download_file url target_path overwrite w)) = files w"
    by (simp_all add: d open_wb_def)
qed

theorem download_file_exists_witness:
  "download_file ''u'' ''artifacts'' False (example_world [Some r_html]) =
     (Inl FileAlreadyExists, example_world [Some r_html]) \<and>
   fst (download_file ''u'' ''artifact.bin'' True (example_world [Some r_html])) = Inr () \<and>
   map_of (files (snd (download_file ''u'' ''artifact.bin'' True (example_world [Some r_html]))))
     ''artifact.bin'' = Some (Regular ''<html>'' True) \<and>
   requests_log (snd (download_file ''u'' ''artifact.bin'' True (example_world [Some r_html]))) =
     [\<lparr>rq_url = ''u'', rq_ref = None, rq_params = None, rq_stream = True\<rparr>] \<and>
   fst (download_file ''u'' ''readonly.bin'' True (example_world [Some r_html])) =
     Inl PermissionError \<and>
   files (snd (download_file ''u'' ''readonly.bin'' True (example_world [Some r_html]))) =
     files (example_world [Some r_html])"
  using download_file_exists [where w = "example_world [Some r_html]"
      and target_path = "''artifacts''" and overwrite = False and url = "''u''"
      and e = Directory]
    download_file_exists [where w = "example_world [Some r_html]"
      and target_path = "''artifact.bin''" and overwrite = True and url = "''u''" and r = r_html
      and e = "Regular ''old'' True"]
    download_file_exists [where w = "example_world [Some r_html]"
      and target_path = "''readonly.bin''" and overwrite = True and url = "''u''" and r = r_html
      and e = "Regular ''kept'' False"]
  by (simp add: example_world_def r_html_def)

text \<open>
  C5 as stated fails on a path that exists as a directory: with \<open>overwrite\<close> true the
  request is issued, then \<^verbatim>\<open>open\<close> raises \<open>IsADirectoryError\<close>, and nothing holds the body
  of the response.
\<close>

theorem download_file_directory_counterexample:
  "path_exists ''artifacts'' (example_world [Some r_html]) \<and>
   fst (download_file ''u'' ''artifacts'' True (example_world [Some r_html])) =
     Inl IsADirectoryError \<and>
   length (requests_log (snd (download_file ''u'' ''artifacts'' True
     (example_world [Some r_html])))) = 1 \<and>
   files (snd (download_file ''u'' ''artifacts'' True (example_world [Some r_html]))) =
     files (example_world [Some r_html])"
  by (simp add: download_file_def path_exists_def open_wb_def requests_get_def
        example_world_def r_html_def)

section \<open>Properties of the pagination\<close>

subsection \<open>One page\<close>

lemma query_api_page:
  assumes "is_page r (its, t)" and "replies w = Some r ## rest"
  shows "\<exists>kvs w'. query_api url p d w = (Inr (JObj kvs), w') \<and>
           map_of kvs ''items'' = Some (JArr its) \<and> map_of kvs ''next_page_token'' = t \<and>
           replies w' = rest \<and>
           length (requests_log w') = Suc (length (requests_log w))"
  using assms
  by (auto simp add: query_api_def requests_get_def raise_for_status_def response_json_def
        print_def Let_def split: option.splits json.splits)

lemma iterator_loop_page:
  assumes "is_page r (its, t)" and "replies w = Some r ## rest"
      and "within_limit (g_page_count g) (g_max_pages g)"
  shows "\<exists>g' w'. iterator_loop self g tok w = (Inr (Some (JArr its)), g', w') \<and>
           g_state g' = Suspended \<and>
           getitem (g_response g') ''next_page_token'' =
             (case t of None \<Rightarrow> Inl KeyError | Some v \<Rightarrow> Inr v) \<and>
           g_page_count g' = g_page_count g \<and> g_max_pages g' = g_max_pages g \<and>
           replies w' = rest \<and>
           length (requests_log w') = Suc (length (requests_log w))"
proof -
  obtain a w1 where a:
    "(if tok \<noteq> JNull
      then alloc (AList.update ''page-token'' tok (heap w ! g_params g)) w
      else (g_params g, w)) = (a, w1)"
    by fastforce
  then have w1: "replies w1 = Some r ## rest" "requests_log w1 = requests_log w"
    using assms(2) by (auto simp add: alloc_def split: if_splits)
  from query_api_page [OF assms(1) w1(1), of "g_url g" a "debug_requests self"]
  obtain kvs w' where q: "query_api (g_url g) a (debug_requests self) w1 = (Inr (JObj kvs), w')"
    "map_of kvs ''items'' = Some (JArr its)" "map_of kvs ''next_page_token'' = t"
    "replies w' = rest" "length (requests_log w') = Suc (length (requests_log w1))"
    by auto
  show ?thesis
    using assms(3) a q w1(2)
    by (simp add: iterator_loop_def within_limit_def split: option.splits)
qed

subsection \<open>The run after the first page\<close>

lemma reduce_add_run:
  assumes "list_all2 is_page rs ps"
      and "replies w = map Some rs @- rest"
      and "g_state g = Suspended"
      and "getitem (g_response g) ''next_page_token'' = Inr tok"
      and "serves tok (g_page_count g + 1) (g_max_pages g) (map snd ps)"
  shows "\<exists>w'. reduce_add self g acc w = Some (Inr (acc @ concat (map fst ps)), w') \<and>
           replies w' = rest \<and>
           length (requests_log w') = length (requests_log w) + length ps"
  using assms
proof (induction ps arbitrary: rs w g acc tok rule: list.induct)
  case Nil
  then have rs: "rs = []" by simp
  from Nil have "gen_next self g w =
      (Inr None, g\<lparr>g_page_count := g_page_count g + 1, g_state := Finished\<rparr>, w)"
    by (auto simp add: gen_next_def iterator_loop_def within_limit_def Let_def
          split: option.splits)
  with Nil(2) rs show ?case
    by (subst reduce_add.simps) simp
next
  case (Cons p ps)
  obtain its t where p: "p = (its, t)" by (cases p)
  from Cons.prems(1) obtain r rs' where rs:
    "rs = r # rs'" "is_page r (its, t)" "list_all2 is_page rs' ps"
    by (auto simp add: list_all2_Cons2 p)
  from Cons.prems(5) obtain tok' where t:
    "tok \<noteq> JNull" "within_limit (g_page_count g + 1) (g_max_pages g)"
    "t = Some tok'" "serves tok' (g_page_count g + 1 + 1) (g_max_pages g) (map snd ps)"
    by (auto simp add: p split: option.splits)
  let ?g1 = "g\<lparr>g_page_count := g_page_count g + 1\<rparr>"
  have "replies w = Some r ## (map Some rs' @- rest)"
    using Cons.prems(2) rs(1) by simp
  from iterator_loop_page [OF rs(2) this, of ?g1 self tok] t(2)
  obtain g' w' where l:
    "iterator_loop self ?g1 tok w = (Inr (Some (JArr its)), g', w')"
    "g_state g' = Suspended" "getitem (g_response g') ''next_page_token'' = Inr tok'"
    "g_page_count g' = g_page_count g + 1" "g_max_pages g' = g_max_pages g"
    "replies w' = map Some rs' @- rest"
    "length (requests_log w') = Suc (length (requests_log w))"
    by (auto simp add: t(3))
  have n: "gen_next self g w = (Inr (Some (JArr its)), g', w')"
    using Cons.prems(3,4) t(1) l(1) by (simp add: gen_next_def Let_def)
  from Cons.IH [OF rs(3) l(6) l(2) l(3), of "acc @ its"] t(4) l(4,5)
  obtain w'' where
    "reduce_add self g' (acc @ its) w' = Some (Inr ((acc @ its) @ concat (map fst ps)), w'')"
    "replies w'' = rest" "length (requests_log w'') = length (requests_log w') + length ps"
    by auto
  with n l(7) show ?case
    by (subst reduce_add.simps) (simp add: p)
qed

subsection \<open>The whole run\<close>

lemma paginated_query_api_run:
  assumes "list_all2 is_page rs ((its, Some tok) # ps)"
      and "replies w = map Some rs @- rest"
      and "map_of (heap w ! params) ''page-token'' = None"
      and "within_limit 0 max_pages"
      and "serves tok 1 max_pages (map snd ps)"
  shows "\<exists>w'. paginated_query_api self url params max_pages w =
                 Some (Inr (its @ concat (map fst ps)), w') \<and>
           replies w' = rest \<and>
           length (requests_log w') = length (requests_log w) + Suc (length ps)"
proof -
  let ?g = "paginated_query_api_iterator self url params max_pages"
  from assms(1) obtain r rs' where rs: "rs = r # rs'" "is_page r (its, Some tok)"
      "list_all2 is_page rs' ps"
    by (auto simp add: list_all2_Cons2)
  have "replies w = Some r ## (map Some rs' @- rest)"
    using assms(2) rs(1) by simp
  from iterator_loop_page [OF rs(2) this, of "?g\<lparr>g_page_count := 0\<rparr>" self JNull] assms(4)
  obtain g' w' where l:
    "iterator_loop self (?g\<lparr>g_page_count := 0\<rparr>) JNull w = (Inr (Some (JArr its)), g', w')"
    "g_state g' = Suspended" "getitem (g_response g') ''next_page_token'' = Inr tok"
    "g_page_count g' = 0" "g_max_pages g' = max_pages"
    "replies w' = map Some rs' @- rest"
    "length (requests_log w') = Suc (length (requests_log w))"
    by (auto simp add: paginated_query_api_iterator_def)
  have n: "gen_next self ?g w = (Inr (Some (JArr its)), g', w')"
    using assms(3) l(1) by (simp add: gen_next_def paginated_query_api_iterator_def)
  from reduce_add_run [OF rs(3) l(6) l(2) l(3), of self its] assms(5) l(4,5)
  obtain w'' where "reduce_add self g' its w' = Some (Inr (its @ concat (map fst ps)), w'')"
     "replies w'' = rest" "length (requests_log w'') = length (requests_log w') + length ps"
    by auto
  with n l(7) show ?thesis
    unfolding paginated_query_api_def
    by (subst reduce_add.simps) simp
qed

lemma serves_complete:
  assumes "\<forall>x \<in> set (butlast (t # ts)). \<exists>v. x = Some v \<and> v \<noteq> JNull"
      and "last (t # ts) = Some JNull"
      and "case mx of None \<Rightarrow> True | Some m \<Rightarrow> n + int (length ts) \<le> m"
  shows "\<exists>tok. t = Some tok \<and> serves tok n mx ts"
  using assms
proof (induction ts arbitrary: t n)
  case Nil
  then show ?case by simp
next
  case (Cons t2 ts)
  from Cons.prems(1) obtain v where v: "t = Some v" "v \<noteq> JNull" by auto
  have "\<exists>tok. t2 = Some tok \<and> serves tok (n + 1) mx ts"
    using Cons.prems by (intro Cons.IH) (auto split: option.splits)
  moreover have "within_limit n mx"
    using Cons.prems(3) by (auto simp add: within_limit_def split: option.splits)
  ultimately show ?case using v by auto
qed

lemma serves_capped:
  assumes "\<forall>x \<in> set (t # ts). \<exists>v. x = Some v \<and> v \<noteq> JNull"
      and "mx = Some (n + int (length ts))"
  shows "\<exists>tok. t = Some tok \<and> serves tok n mx ts"
  using assms
proof (induction ts arbitrary: t n)
  case Nil
  then show ?case by (auto simp add: within_limit_def)
next
  case (Cons t2 ts)
  from Cons.prems(1) obtain v where v: "t = Some v" "v \<noteq> JNull" by auto
  have "\<exists>tok. t2 = Some tok \<and> serves tok (n + 1) mx ts"
    using Cons.prems by (intro Cons.IH) auto
  moreover have "within_limit n mx"
    using Cons.prems(2) by (simp add: within_limit_def)
  ultimately show ?case using v by auto
qed

text \<open>
  C1. The replies start with the pages \<open>ps\<close>, at least one, each a response with its
  items and its token; the token of every page but the last is a string, the last one's
  is null; \<open>max_pages\<close> is absent or at least the number of pages; \<open>params\<close> has no
  \<^verbatim>\<open>page-token\<close>. Then \<open>paginated_query_api\<close> returns the items of all pages, in page
  order and in their order within each page, and issues one request for each page: the
  log grows by the number of pages, and the replies after the pages are left.
\<close>

theorem paginated_query_api_all_pages:
  assumes "ps \<noteq> []" and "list_all2 is_page rs ps"
      and "\<forall>p \<in> set (butlast ps). \<exists>s. snd p = Some (JStr s)"
      and "snd (last ps) = Some JNull"
      and "case max_pages of None \<Rightarrow> True | Some m \<Rightarrow> int (length ps) \<le> m"
      and "replies w = map Some rs @- rest"
      and "map_of (heap w ! params) ''page-token'' = None"
  shows "\<exists>w'. paginated_query_api self url params max_pages w =
                 Some (Inr (concat (map fst ps)), w') \<and>
           replies w' = rest \<and>
           length (requests_log w') = length (requests_log w) + length ps"
proof -
  obtain its t ps' where ps: "ps = (its, t) # ps'"
    using assms(1) by (cases ps) auto
  have "\<forall>x \<in> set (butlast (t # map snd ps')). \<exists>v. x = Some v \<and> v \<noteq> JNull"
    using assms(3) unfolding ps by (auto simp add: map_butlast [symmetric] split: if_splits)
  moreover have "last (t # map snd ps') = Some JNull"
    using assms(4) unfolding ps by (auto simp add: last_map)
  moreover have "case max_pages of None \<Rightarrow> True
      | Some m \<Rightarrow> 1 + int (length (map snd ps')) \<le> m"
    using assms(5) unfolding ps by (auto split: option.splits)
  ultimately obtain tok where tok: "t = Some tok" "serves tok 1 max_pages (map snd ps')"
    using serves_complete [where t = t and ts = "map snd ps'" and mx = max_pages and n = 1]
    by blast
  have "within_limit 0 max_pages"
    using assms(5) unfolding ps by (auto simp add: within_limit_def split: option.splits)
  from paginated_query_api_run [OF assms(2) [unfolded ps tok(1)] assms(6,7) this tok(2)]
  show ?thesis by (simp add: ps)
qed

theorem paginated_query_api_all_pages_witness:
  "\<exists>w'. paginated_query_api ci ''u'' 0 (Some 10)
           (example_world [Some (page_response [JNum 1, JNum 2] (JStr ''A'')),
                           Some (page_response [] (JStr ''B'')),
                           Some (page_response [JNum 3] JNull)]) =
          Some (Inr [JNum 1, JNum 2, JNum 3], w') \<and>
        replies w' = sconst None \<and> length (requests_log w') = 3"
  using paginated_query_api_all_pages
    [where ps = "[([JNum 1, JNum 2], Some (JStr ''A'')), ([], Some (JStr ''B'')),
                  ([JNum 3], Some JNull)]"
       and rs = "[page_response [JNum 1, JNum 2] (JStr ''A''), page_response [] (JStr ''B''),
                  page_response [JNum 3] JNull]"
       and max_pages = "Some 10" and params = 0 and rest = "sconst None" and self = ci
       and url = "''u''"
       and w = "example_world [Some (page_response [JNum 1, JNum 2] (JStr ''A'')),
                           Some (page_response [] (JStr ''B'')),
                           Some (page_response [JNum 3] JNull)]"]
  by (simp add: example_world_def page_response_def eval_nat_numeral)

text \<open>
  C2. \<open>max_pages\<close> is positive, the replies start with \<open>max_pages\<close> pages, each with a
  token that is not null, and go on with any further replies \<open>rest\<close>. Then
  \<open>paginated_query_api\<close> returns the items of exactly these first \<open>max_pages\<close> pages, as a
  result and not as an error, after exactly \<open>max_pages\<close> requests; \<open>rest\<close> is not touched.
\<close>

theorem paginated_query_api_capped:
  assumes "0 < max_pages" and "int (length ps) = max_pages"
      and "list_all2 is_page rs ps"
      and "\<forall>p \<in> set ps. \<exists>v. snd p = Some v \<and> v \<noteq> JNull"
      and "replies w = map Some rs @- rest"
      and "map_of (heap w ! params) ''page-token'' = None"
  shows "\<exists>w'. paginated_query_api self url params (Some max_pages) w =
                 Some (Inr (concat (map fst ps)), w') \<and>
           replies w' = rest \<and>
           length (requests_log w') = length (requests_log w) + nat max_pages"
proof -
  obtain its t ps' where ps: "ps = (its, t) # ps'"
    using assms(1,2) by (cases ps) auto
  have "\<forall>x \<in> set (t # map snd ps'). \<exists>v. x = Some v \<and> v \<noteq> JNull"
    using assms(4) unfolding ps by auto
  moreover have "Some max_pages = Some (1 + int (length (map snd ps')))"
    using assms(2) unfolding ps by simp
  ultimately obtain tok where tok: "t = Some tok" "serves tok 1 (Some max_pages) (map snd ps')"
    using serves_capped [where t = t and ts = "map snd ps'" and mx = "Some max_pages" and n = 1]
    by blast
  have "within_limit 0 (Some max_pages)"
    using assms(1) by (simp add: within_limit_def)
  moreover have "nat max_pages = Suc (length ps')"
    using assms(2) unfolding ps by simp
  ultimately show ?thesis
    using paginated_query_api_run [OF assms(3) [unfolded ps tok(1)] assms(5,6) _ tok(2), of self url]
    by (simp add: ps)
qed

theorem paginated_query_api_capped_witness:
  "\<exists>w'. paginated_query_api ci ''u'' 0 (Some 2)
           (example_world [Some (page_response [JNum 1, JNum 2] (JStr ''A'')),
                           Some (page_response [] (JStr ''B'')),
                           Some (page_response [JNum 3] JNull)]) =
          Some (Inr [JNum 1, JNum 2], w') \<and>
        replies w' = Some (page_response [JNum 3] JNull) ## sconst None \<and>
        length (requests_log w') = 2"
  using paginated_query_api_capped
    [where ps = "[([JNum 1, JNum 2], Some (JStr ''A'')), ([], Some (JStr ''B''))]"
       and rs = "[page_response [JNum 1, JNum 2] (JStr ''A''), page_response [] (JStr ''B'')]"
       and max_pages = 2 and params = 0 and self = ci and url = "''u''"
       and rest = "Some (page_response [JNum 3] JNull) ## sconst None"
       and w = "example_world [Some (page_response [JNum 1, JNum 2] (JStr ''A'')),
                           Some (page_response [] (JStr ''B'')),
                           Some (page_response [JNum 3] JNull)]"]
  by (simp add: example_world_def page_response_def eval_nat_numeral)

subsection \<open>No page at all\<close>

text \<open>
  C10. When \<open>params\<close> has no \<^verbatim>\<open>page-token\<close> and \<open>max_pages\<close> is zero or negative,
  \<open>paginated_query_api\<close> returns the empty list and leaves the world as it was: no request
  is issued and no error is raised.
\<close>

theorem paginated_query_api_no_pages:
  assumes "map_of (heap w ! params) ''page-token'' = None" and "max_pages \<le> 0"
  shows "paginated_query_api self url params (Some max_pages) w = Some (Inr [], w)"
  unfolding paginated_query_api_def
  using assms
  by (subst reduce_add.simps)
    (simp add: gen_next_def iterator_loop_def paginated_query_api_iterator_def)

theorem paginated_query_api_no_pages_witness:
  "paginated_query_api ci ''u'' 0 (Some (- 1)) (example_world [Some (page_response [] JNull)]) =
     Some (Inr [], example_world [Some (page_response [] JNull)])"
  using paginated_query_api_no_pages [where w = "example_world [Some (page_response [] JNull)]"
      and params = 0 and max_pages = "- 1" and self = ci and url = "''u''"]
  by (simp add: example_world_def)

subsection \<open>The assertion\<close>

lemma query_api_error:
  "query_api url p d w = (Inl e, w') \<Longrightarrow> e \<in> {ConnectionError, HTTPError, JSONDecodeError}"
  by (auto simp add: query_api_def requests_get_def raise_for_status_def response_json_def
        Let_def split: option.splits if_splits)

lemma getitem_error: "getitem j k = Inl e \<Longrightarrow> e \<in> {KeyError, TypeError}"
  by (cases j) (auto split: option.splits)

lemma operator_add_error: "operator_add acc x = Inl e \<Longrightarrow> e = TypeError"
  by (cases x) auto

lemma iterator_loop_result:
  assumes "iterator_loop self g tok w = (r, g', w')"
  shows "r \<noteq> Inl AssertionError \<and> g_state g' \<noteq> Created"
proof (cases "within_limit (g_page_count g) (g_max_pages g)")
  case False
  with assms show ?thesis
    by (auto simp add: iterator_loop_def within_limit_def split: option.splits)
next
  case True
  obtain a w1 where a:
    "(if tok \<noteq> JNull
      then alloc (AList.update ''page-token'' tok (heap w ! g_params g)) w
      else (g_params g, w)) = (a, w1)"
    by fastforce
  obtain q w2 where q: "query_api (g_url g) a (debug_requests self) w1 = (q, w2)"
    by fastforce
  show ?thesis
  proof (cases q)
    case (Inl e)
    with assms True a q query_api_error [of "g_url g" a "debug_requests self" w1 e w2]
    show ?thesis
      by (auto simp add: iterator_loop_def within_limit_def split: option.splits)
  next
    case (Inr j)
    with assms True a q getitem_error [of j "''items''"]
    show ?thesis
      by (auto simp add: iterator_loop_def within_limit_def split: option.splits sum.splits)
  qed
qed

lemma gen_next_result:
  assumes "gen_next self g w = (r, g', w')"
      and "g_state g = Created \<longrightarrow> map_of (heap w ! g_params g) ''page-token'' = None"
  shows "r \<noteq> Inl AssertionError \<and> g_state g' \<noteq> Created"
proof (cases "g_state g")
  case Created
  with assms iterator_loop_result [of self "g\<lparr>g_page_count := 0\<rparr>" JNull w r g' w']
  show ?thesis by (simp add: gen_next_def)
next
  case Suspended
  show ?thesis
  proof (cases "getitem (g_response g) ''next_page_token''")
    case (Inl e)
    with assms Suspended getitem_error [of "g_response g" "''next_page_token''" e]
    show ?thesis by (auto simp add: gen_next_def)
  next
    case (Inr tok)
    with assms Suspended
      iterator_loop_result [of self "g\<lparr>g_page_count := g_page_count g + 1\<rparr>" tok w r g' w']
    show ?thesis by (auto simp add: gen_next_def Let_def split: if_splits)
  qed
next
  case Finished
  with assms show ?thesis by (auto simp add: gen_next_def)
qed

lemma reduce_add_no_assertion:
  assumes "reduce_add self g acc w = Some y"
  shows "(g_state g = Created \<longrightarrow> map_of (heap w ! g_params g) ''page-token'' = None) \<longrightarrow>
         fst y \<noteq> Inl AssertionError"
  using assms
proof (induction self g acc w y rule: reduce_add.raw_induct [rotated 1, consumes 1, case_names step])
  case (step rec self g acc w y)
  obtain r g' w' where n: "gen_next self g w = (r, g', w')"
    by (cases "gen_next self g w") auto
  show ?case
  proof
    assume "g_state g = Created \<longrightarrow> map_of (heap w ! g_params g) ''page-token'' = None"
    from gen_next_result [OF n this] have r: "r \<noteq> Inl AssertionError" "g_state g' \<noteq> Created"
      by auto
    show "fst y \<noteq> Inl AssertionError"
    proof (cases r)
      case (Inl e)
      with step(2) n r show ?thesis by auto
    next
      case (Inr v)
      show ?thesis
      proof (cases v)
        case None
        with step(2) n Inr show ?thesis by auto
      next
        case (Some x)
        show ?thesis
        proof (cases "operator_add acc x")
          case (Inl e)
          with operator_add_error [of acc x e] step(2) n Inr Some show ?thesis by auto
        next
          case (Inr acc')
          with step(2) n \<open>r = Inr v\<close> Some have "rec self g' acc' w' = Some y" by simp
          from step(1) [OF this] r(2) show ?thesis by simp
        qed
      qed
    qed
  qed
qed

text \<open>
  C3. When \<open>params\<close> contains \<^verbatim>\<open>page-token\<close>, the first advance of the iterator raises
  \<open>AssertionError\<close> with the world as it was, so before any request, and so does
  \<open>paginated_query_api\<close>. When \<open>params\<close> does not contain it, the assertion passes:
  neither the first advance nor any run of \<open>paginated_query_api\<close> ends in
  \<open>AssertionError\<close>.
\<close>

theorem page_token_assertion:
  "(map_of (heap w ! params) ''page-token'' \<noteq> None \<longrightarrow>
      fst (gen_next self (paginated_query_api_iterator self url params max_pages) w) =
        Inl AssertionError \<and>
      snd (snd (gen_next self (paginated_query_api_iterator self url params max_pages) w)) = w \<and>
      paginated_query_api self url params max_pages w = Some (Inl AssertionError, w)) \<and>
   (map_of (heap w ! params) ''page-token'' = None \<longrightarrow>
      fst (gen_next self (paginated_query_api_iterator self url params max_pages) w) \<noteq>
        Inl AssertionError \<and>
      (\<forall>r w'. paginated_query_api self url params max_pages w = Some (r, w') \<longrightarrow>
         r \<noteq> Inl AssertionError))"
proof (intro conjI impI allI)
  let ?g = "paginated_query_api_iterator self url params max_pages"
  assume p: "map_of (heap w ! params) ''page-token'' \<noteq> None"
  then have n: "gen_next self ?g w = (Inl AssertionError, ?g\<lparr>g_state := Finished\<rparr>, w)"
    by (simp add: gen_next_def paginated_query_api_iterator_def)
  then show "fst (gen_next self ?g w) = Inl AssertionError"
    and "snd (snd (gen_next self ?g w)) = w"
    by simp_all
  from n show "paginated_query_api self url params max_pages w = Some (Inl AssertionError, w)"
    unfolding paginated_query_api_def by (subst reduce_add.simps) simp
next
  let ?g = "paginated_query_api_iterator self url params max_pages"
  assume a: "map_of (heap w ! params) ''page-token'' = None"
  then have c: "g_state ?g = Created \<longrightarrow> map_of (heap w ! g_params ?g) ''page-token'' = None"
    by (simp add: paginated_query_api_iterator_def)
  obtain r g' w' where n: "gen_next self ?g w = (r, g', w')"
    by (cases "gen_next self ?g w") auto
  from gen_next_result [OF n c] n
  show "fst (gen_next self ?g w) \<noteq> Inl AssertionError" by simp
  fix r w'
  assume "paginated_query_api self url params max_pages w = Some (r, w')"
  then have "reduce_add self ?g [] w = Some (r, w')"
    by (simp add: paginated_query_api_def)
  from reduce_add_no_assertion [OF this] c show "r \<noteq> Inl AssertionError" by simp
qed

theorem page_token_assertion_witness:
  "paginated_query_api ci ''u'' 0 (Some 10)
     ((example_world [Some (page_response [] JNull)])\<lparr>heap := [[(''page-token'', JStr ''A'')]]\<rparr>) =
     Some (Inl AssertionError,
       (example_world [Some (page_response [] JNull)])\<lparr>heap := [[(''page-token'', JStr ''A'')]]\<rparr>) \<and>
   fst (gen_next ci (paginated_query_api_iterator ci ''u'' 0 (Some 10))
     (example_world [Some (page_response [] JNull)])) \<noteq> Inl AssertionError"
  using page_token_assertion [where self = ci and url = "''u''" and params = 0
      and max_pages = "Some 10"
      and w = "(example_world [Some (page_response [] JNull)])\<lparr>heap := [[(''page-token'', JStr ''A'')]]\<rparr>"]
    page_token_assertion [where self = ci and url = "''u''" and params = 0
      and max_pages = "Some 10" and w = "example_world [Some (page_response [] JNull)]"]
  by (simp add: example_world_def)

subsection \<open>The last page\<close>

lemma query_api_reply:
  assumes "query_api url p d w = (Inr j, w')"
  shows "\<exists>r. shd (replies w) = Some r \<and> json_body r = Some j \<and>
           \<not> (400 \<le> status_code r \<and> status_code r < 600)"
  using assms
  by (auto simp add: query_api_def requests_get_def raise_for_status_def response_json_def
        print_def Let_def split: option.splits if_splits)

lemma iterator_loop_yield:
  assumes "iterator_loop self g tok w = (Inr (Some v), g', w')"
  shows "g_state g' = Suspended \<and> getitem (g_response g') ''items'' = Inr v \<and>
         (\<exists>r. shd (replies w) = Some r \<and> json_body r = Some (g_response g'))"
proof -
  obtain a w1 where a:
    "(if tok \<noteq> JNull
      then alloc (AList.update ''page-token'' tok (heap w ! g_params g)) w
      else (g_params g, w)) = (a, w1)"
    by fastforce
  then have w1: "replies w1 = replies w"
    by (auto simp add: alloc_def split: if_splits)
  obtain q w2 where q: "query_api (g_url g) a (debug_requests self) w1 = (q, w2)"
    by fastforce
  from assms a q obtain j where j: "q = Inr j" "g_response g' = j" "g_state g' = Suspended"
      "getitem j ''items'' = Inr v"
    by (auto simp add: iterator_loop_def split: if_splits sum.splits)
  from query_api_reply [OF q [unfolded j(1)]] w1 j show ?thesis by auto
qed

lemma gen_next_yield:
  assumes "gen_next self g w = (Inr (Some v), g', w')"
  shows "g_state g' = Suspended \<and> getitem (g_response g') ''items'' = Inr v \<and>
         (\<exists>r. shd (replies w) = Some r \<and> json_body r = Some (g_response g'))"
proof (cases "g_state g")
  case Created
  with assms have "iterator_loop self (g\<lparr>g_page_count := 0\<rparr>) JNull w = (Inr (Some v), g', w')"
    by (simp add: gen_next_def split: if_splits)
  then show ?thesis by (rule iterator_loop_yield)
next
  case Suspended
  with assms obtain tok where
    "iterator_loop self (g\<lparr>g_page_count := g_page_count g + 1\<rparr>) tok w = (Inr (Some v), g', w')"
    by (auto simp add: gen_next_def Let_def split: if_splits sum.splits)
  then show ?thesis by (rule iterator_loop_yield)
next
  case Finished
  with assms show ?thesis by (simp add: gen_next_def)
qed

text \<open>
  C8, as the code has it. The iterator has fetched the page \<open>r\<close> and yielded: what it
  yielded is the items of \<open>r\<close>. When the \<^verbatim>\<open>next_page_token\<close> of \<open>r\<close> is null, the next
  advance returns normally and \<^verbatim>\<open>reduce\<close> returns what it has accumulated, with the world as
  it was: no further request, no error. When \<open>r\<close> has no \<^verbatim>\<open>next_page_token\<close> field, the
  next advance raises \<open>KeyError\<close>, also without a further request.
\<close>

theorem pagination_last_page:
  assumes "shd (replies w) = Some r" and "is_page r (its, t)"
      and "gen_next self g w = (Inr (Some v), g', w')"
  shows "v = JArr its \<and>
         (t = Some JNull \<longrightarrow>
            fst (gen_next self g' w') = Inr None \<and> snd (snd (gen_next self g' w')) = w' \<and>
            reduce_add self g' acc w' = Some (Inr acc, w')) \<and>
         (t = None \<longrightarrow>
            fst (gen_next self g' w') = Inl KeyError \<and> snd (snd (gen_next self g' w')) = w' \<and>
            reduce_add self g' acc w' = Some (Inl KeyError, w'))"
proof -
  from gen_next_yield [OF assms(3)] assms(1)
  have g': "g_state g' = Suspended" "getitem (g_response g') ''items'' = Inr v"
    "json_body r = Some (g_response g')"
    by auto
  from assms(2) g'(3) obtain kvs where kvs: "g_response g' = JObj kvs"
    "map_of kvs ''items'' = Some (JArr its)" "map_of kvs ''next_page_token'' = t"
    by (auto split: json.splits)
  from g'(2) kvs have v: "v = JArr its" by simp
  have null: "gen_next self g' w' =
      (Inr None, g'\<lparr>g_page_count := g_page_count g' + 1, g_state := Finished\<rparr>, w')"
    if "t = Some JNull"
    using that g'(1) kvs by (simp add: gen_next_def Let_def)
  have absent: "gen_next self g' w' = (Inl KeyError, g'\<lparr>g_state := Finished\<rparr>, w')"
    if "t = None"
    using that g'(1) kvs by (simp add: gen_next_def Let_def)
  have "reduce_add self g' acc w' = Some (Inr acc, w')" if "t = Some JNull"
    using null [OF that] by (subst reduce_add.simps) simp
  moreover have "reduce_add self g' acc w' = Some (Inl KeyError, w')" if "t = None"
    using absent [OF that] by (subst reduce_add.simps) simp
  ultimately show ?thesis using v null absent by simp
qed

theorem pagination_last_page_witness:
  "fst (gen_next ci (paginated_query_api_iterator ci ''u'' 0 (Some 10))
     (example_world [Some (page_response [JNum 1] JNull), Some r_html])) =
     Inr (Some (JArr [JNum 1])) \<and>
   paginated_query_api ci ''u'' 0 (Some 10)
     (example_world [Some (page_response [JNum 1] JNull), Some r_html]) =
     Some (Inr [JNum 1],
       (example_world [Some r_html])\<lparr>requests_log :=
         [\<lparr>rq_url = ''u'', rq_ref = Some 0, rq_params = Some [(''branch'', JStr ''develop'')],
           rq_stream = False\<rparr>]\<rparr>)"
proof -
  let ?w = "example_world [Some (page_response [JNum 1] JNull), Some r_html]"
  let ?g = "paginated_query_api_iterator ci ''u'' 0 (Some 10)"
  let ?w' = "(example_world [Some r_html])\<lparr>requests_log :=
         [\<lparr>rq_url = ''u'', rq_ref = Some 0, rq_params = Some [(''branch'', JStr ''develop'')],
           rq_stream = False\<rparr>]\<rparr>"
  let ?g' = "?g\<lparr>g_response := JObj [(''items'', JArr [JNum 1]), (''next_page_token'', JNull)],
               g_state := Suspended\<rparr>"
  have n: "gen_next ci ?g ?w = (Inr (Some (JArr [JNum 1])), ?g', ?w')"
    by (simp add: gen_next_def iterator_loop_def paginated_query_api_iterator_def query_api_def
        requests_get_def raise_for_status_def response_json_def Let_def example_world_def
        page_response_def ci_def)
  have "shd (replies ?w) = Some (page_response [JNum 1] JNull)"
    and "is_page (page_response [JNum 1] JNull) ([JNum 1], Some JNull)"
    by (simp_all add: example_world_def page_response_def)
  from pagination_last_page [OF this n, of "[JNum 1]"]
  have "reduce_add ci ?g' [JNum 1] ?w' = Some (Inr [JNum 1], ?w')" by simp
  with n show ?thesis
    unfolding paginated_query_api_def
    by (subst reduce_add.simps) simp
qed

text \<open>
  C8 as stated fails where the field is absent: the page \<^verbatim>\<open>{"items": [1]}\<close> is yielded,
  the next advance raises \<open>KeyError\<close>, and so does \<open>paginated_query_api\<close>.
\<close>

theorem pagination_absent_token_counterexample:
  "is_page r_no_token ([JNum 1], None) \<and>
   fst (gen_next ci (paginated_query_api_iterator ci ''u'' 0 (Some 10))
          (example_world [Some r_no_token])) = Inr (Some (JArr [JNum 1])) \<and>
   fst (gen_next ci
          (fst (snd (gen_next ci (paginated_query_api_iterator ci ''u'' 0 (Some 10))
             (example_world [Some r_no_token]))))
          (snd (snd (gen_next ci (paginated_query_api_iterator ci ''u'' 0 (Some 10))
             (example_world [Some r_no_token]))))) = Inl KeyError \<and>
   map_option fst (paginated_query_api ci ''u'' 0 (Some 10) (example_world [Some r_no_token])) =
     Some (Inl KeyError)"
proof -
  let ?w = "example_world [Some r_no_token]"
  let ?g = "paginated_query_api_iterator ci ''u'' 0 (Some 10)"
  let ?w' = "(example_world [])\<lparr>requests_log :=
         [\<lparr>rq_url = ''u'', rq_ref = Some 0, rq_params = Some [(''branch'', JStr ''develop'')],
           rq_stream = False\<rparr>]\<rparr>"
  let ?g' = "?g\<lparr>g_response := JObj [(''items'', JArr [JNum 1])], g_state := Suspended\<rparr>"
  have n: "gen_next ci ?g ?w = (Inr (Some (JArr [JNum 1])), ?g', ?w')"
    by (simp add: gen_next_def iterator_loop_def paginated_query_api_iterator_def query_api_def
        requests_get_def raise_for_status_def response_json_def Let_def example_world_def
        r_no_token_def ci_def)
  have n': "gen_next ci ?g' ?w' = (Inl KeyError, ?g'\<lparr>g_state := Finished\<rparr>, ?w')"
    by (simp add: gen_next_def paginated_query_api_iterator_def)
  have "reduce_add ci ?g' [JNum 1] ?w' = Some (Inl KeyError, ?w')"
    using n' by (subst reduce_add.simps) simp
  with n have "paginated_query_api ci ''u'' 0 (Some 10) ?w = Some (Inl KeyError, ?w')"
    unfolding paginated_query_api_def
    by (subst reduce_add.simps) simp
  with n n' show ?thesis by (simp add: r_no_token_def)
qed

subsection \<open>The caller's dictionary\<close>

lemma query_api_effect:
  assumes "query_api url a d w = (q, w')"
  shows "heap w' = heap w \<and> replies w' = stl (replies w) \<and>
         requests_log w' = requests_log w @
           [\<lparr>rq_url = url, rq_ref = Some a, rq_params = Some (heap w ! a), rq_stream = False\<rparr>] \<and>
         (\<forall>j. q = Inr j \<longrightarrow> (\<exists>r. shd (replies w) = Some r \<and> json_body r = Some j))"
  using assms
  by (auto simp add: query_api_def requests_get_def raise_for_status_def response_json_def
        print_def Let_def split: option.splits if_splits)

lemma iterator_loop_effect:
  assumes "iterator_loop self g tok w = (r, g', w')"
  shows "(r = Inr None \<and> w' = w) \<or>
         (\<exists>a h. (if tok \<noteq> JNull
                 then a = length (heap w) \<and>
                      h = heap w @ [AList.update ''page-token'' tok (heap w ! g_params g)]
                 else a = g_params g \<and> h = heap w) \<and>
            heap w' = h \<and> replies w' = stl (replies w) \<and>
            requests_log w' = requests_log w @
              [\<lparr>rq_url = g_url g, rq_ref = Some a, rq_params = Some (h ! a), rq_stream = False\<rparr>] \<and>
            (\<forall>v. r = Inr (Some v) \<longrightarrow>
               g_state g' = Suspended \<and> g_params g' = a \<and> g_url g' = g_url g \<and>
               (\<exists>rp. shd (replies w) = Some rp \<and> json_body rp = Some (g_response g'))))"
proof (cases "within_limit (g_page_count g) (g_max_pages g)")
  case False
  with assms show ?thesis
    by (auto simp add: iterator_loop_def within_limit_def split: option.splits)
next
  case True
  obtain a w1 where a:
    "(if tok \<noteq> JNull
      then alloc (AList.update ''page-token'' tok (heap w ! g_params g)) w
      else (g_params g, w)) = (a, w1)"
    by fastforce
  define h where "h = heap w1"
  have w1: "replies w1 = replies w" "requests_log w1 = requests_log w"
    "if tok \<noteq> JNull
     then a = length (heap w) \<and>
          h = heap w @ [AList.update ''page-token'' tok (heap w ! g_params g)]
     else a = g_params g \<and> h = heap w"
    using a by (auto simp add: alloc_def h_def split: if_splits)
  obtain q w2 where q: "query_api (g_url g) a (debug_requests self) w1 = (q, w2)"
    by fastforce
  note e = query_api_effect [OF q]
  have w': "w' = w2" and r: "\<forall>v. r = Inr (Some v) \<longrightarrow>
      (\<exists>j. q = Inr j \<and> g_response g' = j \<and> g_state g' = Suspended \<and> g_params g' = a \<and>
        g_url g' = g_url g)"
    using assms True a q
    by (auto simp add: iterator_loop_def within_limit_def split: option.splits sum.splits)
  have "\<forall>v. r = Inr (Some v) \<longrightarrow>
      g_state g' = Suspended \<and> g_params g' = a \<and> g_url g' = g_url g \<and>
      (\<exists>rp. shd (replies w) = Some rp \<and> json_body rp = Some (g_response g'))"
    using r e w1(1) by auto
  moreover have "heap w' = h" "replies w' = stl (replies w)"
    "requests_log w' = requests_log w @
       [\<lparr>rq_url = g_url g, rq_ref = Some a, rq_params = Some (h ! a), rq_stream = False\<rparr>]"
    using e w1(1,2) w' by (simp_all add: h_def)
  ultimately show ?thesis using w1(3) by blast
qed

lemma page_params_heap:
  assumes "heap wc = heap w @ map (page_params w params) [1..<Suc m]"
      and "params < length (heap w)"
  shows "heap wc ! page_ref w params m = page_params w params m"
proof (cases m)
  case 0
  with assms show ?thesis by (simp add: page_ref_def page_params_def nth_append)
next
  case (Suc n)
  have "map (page_params w params) [1..<Suc m] ! n = page_params w params (1 + n)"
    unfolding Suc by (subst nth_map) (simp_all del: upt_Suc)
  with assms(1) Suc show ?thesis
    by (simp add: page_ref_def nth_append del: upt_Suc)
qed

lemma page_params_update:
  "AList.update ''page-token'' tok (page_params w params m) =
   AList.update ''page-token'' tok (heap w ! params)"
  by (simp add: page_params_def)

lemma gen_next_inv:
  assumes "run_inv url w params k g wc" and "params < length (heap w)"
      and "gen_next self g wc = (r, g', w')"
  shows "\<exists>k'. run_post url w params k' w' \<and>
              (\<forall>v. r = Inr (Some v) \<longrightarrow> run_inv url w params k' g' w')"
proof -
  from assms(1) have post: "run_post url w params k wc"
    and rep: "replies wc = sdrop k (replies w)" and url: "g_url g = url"
    by (simp_all add: run_inv_def)
  have stay: ?thesis if "w' = wc" "\<forall>v. r \<noteq> Inr (Some v)"
    using that post by blast
  show ?thesis
  proof (cases "g_state g")
    case Finished
    with assms(3) show ?thesis by (intro stay) (auto simp add: gen_next_def)
  next
    case Created
    with assms(1) have k: "k = 0" "g_params g = params" by (simp_all add: run_inv_def)
    show ?thesis
    proof (cases "map_of (heap wc ! g_params g) ''page-token'' \<noteq> None")
      case True
      with assms(3) Created show ?thesis by (intro stay) (auto simp add: gen_next_def)
    next
      case False
      with assms(3) Created
      have l: "iterator_loop self (g\<lparr>g_page_count := 0\<rparr>) JNull wc = (r, g', w')"
        by (simp add: gen_next_def)
      from iterator_loop_effect [OF l] show ?thesis
      proof (elim disjE exE conjE)
        assume "r = Inr None" "w' = wc"
        then show ?thesis by (intro stay) auto
      next
        fix a h
        assume e: "if JNull \<noteq> JNull
            then a = length (heap wc) \<and>
                 h = heap wc @ [AList.update ''page-token'' JNull
                        (heap wc ! g_params (g\<lparr>g_page_count := 0\<rparr>))]
            else a = g_params (g\<lparr>g_page_count := 0\<rparr>) \<and> h = heap wc"
          "heap w' = h" "replies w' = stl (replies wc)"
          "requests_log w' = requests_log wc @
             [\<lparr>rq_url = g_url (g\<lparr>g_page_count := 0\<rparr>), rq_ref = Some a,
               rq_params = Some (h ! a), rq_stream = False\<rparr>]"
          "\<forall>v. r = Inr (Some v) \<longrightarrow>
             g_state g' = Suspended \<and> g_params g' = a \<and>
             g_url g' = g_url (g\<lparr>g_page_count := 0\<rparr>) \<and>
             (\<exists>rp. shd (replies wc) = Some rp \<and> json_body rp = Some (g_response g'))"
        from e(1) k have a: "a = params" "h = heap wc" by simp_all
        from post k have wc: "requests_log wc = requests_log w" "heap wc = heap w"
          by (simp_all add: run_post_def)
        have p: "run_post url w params 1 w'"
          using e(2,4) a wc url assms(2)
          by (simp add: run_post_def page_request_def page_ref_def page_params_def)
        moreover have "run_inv url w params 1 g' w'" if "r = Inr (Some v)" for v
          using that e(3,5) p rep k url a
          by (auto simp add: run_inv_def page_ref_def)
        ultimately show ?thesis by blast
      qed
    qed
  next
    case Suspended
    with assms(1) obtain m rp where k: "k = Suc m" "g_params g = page_ref w params m"
        "replies w !! m = Some rp" "json_body rp = Some (g_response g)"
      by (cases k) (auto simp add: run_inv_def)
    show ?thesis
    proof (cases "getitem (g_response g) ''next_page_token''")
      case (Inl e)
      with assms(3) Suspended show ?thesis by (intro stay) (auto simp add: gen_next_def)
    next
      case (Inr tok)
      show ?thesis
      proof (cases "tok = JNull")
        case True
        with assms(3) Suspended Inr show ?thesis
          by (intro stay) (auto simp add: gen_next_def Let_def)
      next
        case False
        let ?g1 = "g\<lparr>g_page_count := g_page_count g + 1\<rparr>"
        from assms(3) Suspended Inr False
        have l: "iterator_loop self ?g1 tok wc = (r, g', w')"
          by (simp add: gen_next_def Let_def)
        from iterator_loop_effect [OF l] show ?thesis
        proof (elim disjE exE conjE)
          assume "r = Inr None" "w' = wc"
          then show ?thesis by (intro stay) auto
        next
          fix a h
          assume e: "if tok \<noteq> JNull
              then a = length (heap wc) \<and>
                   h = heap wc @ [AList.update ''page-token'' tok (heap wc ! g_params ?g1)]
              else a = g_params ?g1 \<and> h = heap wc"
            "heap w' = h" "replies w' = stl (replies wc)"
            "requests_log w' = requests_log wc @
               [\<lparr>rq_url = g_url ?g1, rq_ref = Some a, rq_params = Some (h ! a),
                 rq_stream = False\<rparr>]"
            "\<forall>v. r = Inr (Some v) \<longrightarrow>
               g_state g' = Suspended \<and> g_params g' = a \<and> g_url g' = g_url ?g1 \<and>
               (\<exists>rp. shd (replies wc) = Some rp \<and> json_body rp = Some (g_response g'))"
          from post k(1) have wc:
            "requests_log wc = requests_log w @ map (page_request url w params) [0..<Suc m]"
            "heap wc = heap w @ map (page_params w params) [1..<Suc m]"
            by (simp_all add: run_post_def)
          have tok: "token_of (replies w !! m) = tok"
            using k(3,4) Inr by (simp add: token_of_def)
          have new: "AList.update ''page-token'' tok (heap wc ! g_params ?g1) =
              page_params w params (Suc m)"
            using page_params_heap [OF wc(2) assms(2)] k(2) tok
            by (simp add: page_params_update) (simp add: page_params_def)
          from e(1) False new have a: "a = length (heap wc)"
            "h = heap wc @ [page_params w params (Suc m)]"
            by simp_all
          have len: "length (heap wc) = length (heap w) + m"
            using wc(2) by simp
          have ha: "h ! a = page_params w params (Suc m)"
            using a by simp
          have ref: "a = page_ref w params (Suc m)"
            using a(1) len by (simp add: page_ref_def)
          have p: "run_post url w params (Suc (Suc m)) w'"
            using e(2,4) a(2) ha ref wc url
            by (simp add: run_post_def page_request_def)
          moreover have "run_inv url w params (Suc (Suc m)) g' w'" if "r = Inr (Some v)" for v
            using that e(3,5) p rep k(1) url ref
            by (auto simp add: run_inv_def)
          ultimately show ?thesis by blast
        qed
      qed
    qed
  qed
qed

lemma reduce_add_post:
  assumes "reduce_add self g acc wc = Some y" and "params < length (heap w)"
  shows "\<forall>k. run_inv url w params k g wc \<longrightarrow> (\<exists>k'. run_post url w params k' (snd y))"
  using assms(1)
proof (induction self g acc wc y rule: reduce_add.raw_induct [rotated 1, consumes 1, case_names step])
  case (step rec self g acc wc y)
  obtain r g' w' where n: "gen_next self g wc = (r, g', w')"
    by (cases "gen_next self g wc") auto
  show ?case
  proof (intro allI impI)
    fix k
    assume "run_inv url w params k g wc"
    from gen_next_inv [OF this assms(2) n] obtain k' where k':
      "run_post url w params k' w'" "\<forall>v. r = Inr (Some v) \<longrightarrow> run_inv url w params k' g' w'"
      by blast
    show "\<exists>k'. run_post url w params k' (snd y)"
    proof (cases r)
      case (Inl e)
      with step(2) n k'(1) show ?thesis by auto
    next
      case (Inr v)
      show ?thesis
      proof (cases v)
        case None
        with step(2) n Inr k'(1) show ?thesis by auto
      next
        case (Some x)
        show ?thesis
        proof (cases "operator_add acc x")
          case (Inl e)
          with step(2) n Inr Some k'(1) show ?thesis by auto
        next
          case (Inr acc')
          with step(2) n \<open>r = Inr v\<close> Some have "rec self g' acc' w' = Some y" by simp
          from step(1) [OF this] k'(2) \<open>r = Inr v\<close> Some show ?thesis by blast
        qed
      qed
    qed
  qed
qed

text \<open>Whatever the iterator does, it changes no dictionary that exists.\<close>

lemma iterator_loop_frame:
  assumes "iterator_loop self g tok w = (r, g', w')" and "a < length (heap w)"
  shows "heap w' ! a = heap w ! a"
  using iterator_loop_effect [OF assms(1)] assms(2)
  by (auto simp add: nth_append split: if_splits)

lemma gen_next_frame:
  assumes "gen_next self g w = (r, g', w')" and "a < length (heap w)"
  shows "heap w' ! a = heap w ! a"
proof (cases "g_state g")
  case Created
  show ?thesis
  proof (cases "map_of (heap w ! g_params g) ''page-token'' \<noteq> None")
    case True
    with assms(1) Created show ?thesis by (auto simp add: gen_next_def)
  next
    case False
    with assms(1) Created
    have "iterator_loop self (g\<lparr>g_page_count := 0\<rparr>) JNull w = (r, g', w')"
      by (simp add: gen_next_def)
    from iterator_loop_frame [OF this assms(2)] show ?thesis .
  qed
next
  case Suspended
  show ?thesis
  proof (cases "getitem (g_response g) ''next_page_token''")
    case (Inl e)
    with assms(1) Suspended show ?thesis by (auto simp add: gen_next_def)
  next
    case (Inr tok)
    show ?thesis
    proof (cases "tok = JNull")
      case True
      with assms(1) Suspended Inr show ?thesis by (auto simp add: gen_next_def Let_def)
    next
      case False
      with assms(1) Suspended Inr
      have "iterator_loop self (g\<lparr>g_page_count := g_page_count g + 1\<rparr>) tok w = (r, g', w')"
        by (simp add: gen_next_def Let_def)
      from iterator_loop_frame [OF this assms(2)] show ?thesis .
    qed
  qed
next
  case Finished
  with assms(1) show ?thesis by (auto simp add: gen_next_def)
qed

text \<open>
  C4. \<open>params\<close> is the address of the caller's dictionary. No advance of the iterator,
  in whatever state, changes the dictionary at \<open>params\<close>. And when a call of
  \<open>paginated_query_api\<close> has ended, with a result or with an error, the dictionary at
  \<open>params\<close> is what it was, as is every other dictionary that existed before the call;
  the run has made \<open>k\<close> requests for some \<open>k\<close>, the first with the caller's dictionary and
  each later one with a dictionary of its own, newly allocated, that holds the caller's
  entries and the token of the previous reply; and these new dictionaries are all that
  the run has added to the store.
\<close>

theorem params_not_mutated:
  assumes "params < length (heap w)"
  shows "(\<forall>r g' w'. gen_next self g w = (r, g', w') \<longrightarrow>
            heap w' ! params = heap w ! params) \<and>
         (\<forall>res w'. paginated_query_api self url params max_pages w = Some (res, w') \<longrightarrow>
            heap w' ! params = heap w ! params \<and>
            (\<forall>a < length (heap w). heap w' ! a = heap w ! a) \<and>
            (\<exists>k. requests_log w' =
                   requests_log w @ map (page_request url w params) [0..<k] \<and>
                 heap w' = heap w @ map (page_params w params) [1..<k]))"
proof -
  have step: "heap w' ! params = heap w ! params"
    if "gen_next self g w = (r, g', w')" for r g' w'
    using gen_next_frame [OF that assms] .
  have run: "heap w' ! params = heap w ! params \<and>
      (\<forall>a < length (heap w). heap w' ! a = heap w ! a) \<and>
      (\<exists>k. requests_log w' = requests_log w @ map (page_request url w params) [0..<k] \<and>
           heap w' = heap w @ map (page_params w params) [1..<k])"
    if run: "paginated_query_api self url params max_pages w = Some (res, w')" for res w'
  proof -
    let ?g = "paginated_query_api_iterator self url params max_pages"
    have "run_inv url w params 0 ?g w"
      by (simp add: run_inv_def run_post_def paginated_query_api_iterator_def)
    moreover from run have "reduce_add self ?g [] w = Some (res, w')"
      by (simp add: paginated_query_api_def)
    ultimately obtain k where "run_post url w params k w'"
      using reduce_add_post [OF _ assms, of self ?g "[]" w "(res, w')" url] by auto
    then have k: "requests_log w' = requests_log w @ map (page_request url w params) [0..<k]"
      "heap w' = heap w @ map (page_params w params) [1..<k]"
      by (simp_all add: run_post_def)
    from k(2) have "\<forall>a < length (heap w). heap w' ! a = heap w ! a"
      by (simp add: nth_append)
    with assms k show ?thesis by blast
  qed
  from step run show ?thesis by blast
qed

theorem params_not_mutated_witness:
  "\<exists>w'. paginated_query_api ci ''u'' 0 (Some 10)
           (example_world [Some (page_response [JNum 1] (JStr ''A'')),
                           Some (page_response [JNum 3] JNull)]) =
          Some (Inr [JNum 1, JNum 3], w') \<and>
        heap w' = [[(''branch'', JStr ''develop'')],
                   [(''branch'', JStr ''develop''), (''page-token'', JStr ''A'')]] \<and>
        requests_log w' =
          [\<lparr>rq_url = ''u'', rq_ref = Some 0, rq_params = Some [(''branch'', JStr ''develop'')],
            rq_stream = False\<rparr>,
           \<lparr>rq_url = ''u'', rq_ref = Some 1,
            rq_params = Some [(''branch'', JStr ''develop''), (''page-token'', JStr ''A'')],
            rq_stream = False\<rparr>]"
proof -
  let ?w = "example_world [Some (page_response [JNum 1] (JStr ''A'')),
                           Some (page_response [JNum 3] JNull)]"
  have "\<exists>w'. paginated_query_api ci ''u'' 0 (Some 10) ?w =
                 Some (Inr ([JNum 1] @ concat (map fst [([JNum 3], Some JNull)])), w') \<and>
           replies w' = sconst None \<and>
           length (requests_log w') = length (requests_log ?w) + Suc (length [([JNum 3], Some JNull)])"
    by (rule paginated_query_api_run
          [where rs = "[page_response [JNum 1] (JStr ''A''), page_response [JNum 3] JNull]"
             and tok = "JStr ''A''"])
      (simp_all add: example_world_def page_response_def within_limit_def)
  then obtain w' where w':
    "paginated_query_api ci ''u'' 0 (Some 10) ?w = Some (Inr [JNum 1, JNum 3], w')"
    "length (requests_log w') = 2"
    by (auto simp add: example_world_def)
  have "0 < length (heap ?w)" by (simp add: example_world_def)
  from params_not_mutated [OF this, of ci _ "''u''" "Some 10"] w'(1) obtain k where k:
    "requests_log w' = requests_log ?w @ map (page_request ''u'' ?w 0) [0..<k]"
    "heap w' = heap ?w @ map (page_params ?w 0) [1..<k]"
    by blast
  from k(1) w'(2) have "k = 2" by (simp add: example_world_def)
  with k have "heap w' = [[(''branch'', JStr ''develop'')],
                   [(''branch'', JStr ''develop''), (''page-token'', JStr ''A'')]]"
    and "requests_log w' =
          [\<lparr>rq_url = ''u'', rq_ref = Some 0, rq_params = Some [(''branch'', JStr ''develop'')],
            rq_stream = False\<rparr>,
           \<lparr>rq_url = ''u'', rq_ref = Some 1,
            rq_params = Some [(''branch'', JStr ''develop''), (''page-token'', JStr ''A'')],
            rq_stream = False\<rparr>]"
    by (simp_all add: example_world_def page_response_def page_request_def page_ref_def
          page_params_def token_of_def upt_rec [of 0] upt_rec [of 1] upt_rec [of 2]
          eval_nat_numeral)
  with w'(1) show ?thesis by blast
qed

section \<open>Properties of latest\_item\<close>

lemma find_filter_hd: "filter P xs = x # ys \<Longrightarrow> find P xs = Some x"
  by (induction xs) (auto split: if_splits)

text \<open>
  C6. Every item has a \<^verbatim>\<open>created_at\<close> field. On the empty sequence \<open>latest_item\<close> returns
  \<open>None\<close> and no error. On any other sequence it returns the first element of the items
  sorted ascending by \<^verbatim>\<open>created_at\<close>: an element of the sequence whose \<^verbatim>\<open>created_at\<close> is
  minimal (the earliest), and the first such element of the sequence.
\<close>

theorem latest_item_earliest:
  assumes "\<forall>item \<in> set items. map_of item ''created_at'' \<noteq> None"
  shows "(items = [] \<longrightarrow> latest_item items = Inr None) \<and>
         (items \<noteq> [] \<longrightarrow>
            (\<exists>x. latest_item items = Inr (Some x) \<and>
                 x = hd (sort_key created_at items) \<and>
                 x \<in> set items \<and>
                 (\<forall>y \<in> set items. created_at x \<le> created_at y) \<and>
                 find (\<lambda>y. created_at y = created_at x) items = Some x))"
proof (cases items)
  case Nil
  then show ?thesis by (simp add: latest_item_def)
next
  case (Cons i others)
  define s where "s = sort_key created_at items"
  have "length s = length items" by (simp add: s_def)
  with Cons obtain x s' where s: "s = x # s'" by (cases s) auto
  have l: "latest_item items = Inr (Some x)"
    using assms s by (auto simp add: latest_item_def s_def [symmetric])
  have "set s = set items" by (simp add: s_def)
  with s have mem: "x \<in> set items" "set s' \<subseteq> set items" by auto
  have "sorted (map created_at s)" by (simp add: s_def)
  with s have "\<forall>y \<in> set s. created_at x \<le> created_at y" by auto
  with \<open>set s = set items\<close> have le: "\<forall>y \<in> set items. created_at x \<le> created_at y" by simp
  have "filter (\<lambda>y. created_at y = created_at x) items =
        filter (\<lambda>y. created_at y = created_at x) s"
    by (simp add: s_def sort_key_stable)
  with s have "find (\<lambda>y. created_at y = created_at x) items = Some x"
    by (auto intro: find_filter_hd)
  moreover have "x = hd (sort_key created_at items)"
    using s by (simp add: s_def [symmetric])
  moreover have "items \<noteq> []" using Cons by simp
  ultimately show ?thesis using l mem(1) le by blast
qed

theorem latest_item_earliest_witness:
  "latest_item ([] :: (string \<times> string) list list) = Inr None \<and>
   latest_item example_items = Inr (Some [(''created_at'', ''2019-01-01'')])"
  using latest_item_earliest [of "[] :: (string \<times> string) list list"]
    latest_item_earliest [of example_items]
  by (auto simp add: example_items_def created_at_def)

end
